theory Spec2Isabelle
  imports Complex_Main "HOL-Library.Word" "HOL-Library.Log_Nat"
begin

unbundle bit_operations_syntax

section \<open>SEPCMaths: the C extension module\<close>

text \<open>
  The module \<^verbatim>\<open>src/c_ext/SEPCMaths.c\<close> exports two functions to Python:
  \<^verbatim>\<open>iterateRationalApproximation\<close>, a mediant search on C \<^verbatim>\<open>int\<close> numerators and
  denominators steered by comparisons of C \<^verbatim>\<open>double\<close> values, and \<^verbatim>\<open>intSign\<close>.

  Modelling decisions, all of them written out in the definitions below:
  \<^item> a C \<^verbatim>\<open>int\<close> is a \<open>32 word\<close> read through \<open>sint\<close>; \<open>+\<close> wraps around in two's
    complement (ISO C leaves signed overflow undefined; wrapping is what the usual
    build of a Python extension produces);
  \<^item> a C \<^verbatim>\<open>double\<close> is an IEEE 754 binary64 value: NaN, the two infinities, or a finite
    rational. Division and subtraction are computed in binary64 and round to nearest,
    ties to even (no wider intermediate format). The sign of a
    zero is not kept: the function only compares and subtracts its doubles, and never
    divides by a computed double, so the sign of a zero cannot be observed;
  \<^item> the \<^verbatim>\<open>while\<close> loop may run forever, so it is a partial function into \<open>option\<close>:
    \<open>None\<close> is the call that never returns.
\<close>

subsection \<open>IEEE 754 binary64\<close>

datatype double = NaN | PInf | NInf | Fin rat

text \<open>Round to the nearest integer, a tie to the even neighbour.\<close>

definition rne :: "rat \<Rightarrow> int" where
  "rne q = (let f = \<lfloor>q\<rfloor>; r = q - of_int f in
     if r < 1 / 2 then f
     else if 1 / 2 < r then f + 1
     else if even f then f else f + 1)"

text \<open>The binary exponent of a positive rational: \<open>2 powi flog2 x \<le> x < 2 powi (flog2 x + 1)\<close>.\<close>

definition flog2 :: "rat \<Rightarrow> int" where
  "flog2 x = (let d = bitlen (fst (quotient_of x)) - bitlen (snd (quotient_of x)) in
     if 2 powi d \<le> x then d else d - 1)"

text \<open>
  The exponent of the unit in the last place: 53 significant bits for a normal number,
  the fixed exponent \<open>-1074\<close> in the subnormal range.
\<close>

definition ulp_exp :: "rat \<Rightarrow> int" where
  "ulp_exp x = max (flog2 \<bar>x\<bar> - 52) (- 1074)"

definition round_val :: "rat \<Rightarrow> rat" where
  "round_val x = of_int (rne (x / 2 powi ulp_exp x)) * 2 powi ulp_exp x"

text \<open>A result of magnitude \<open>2 powi 1024\<close> or more overflows to an infinity.\<close>

definition round_double :: "rat \<Rightarrow> double" where
  "round_double x =
     (if x = 0 then Fin 0
      else if 2 powi 1024 \<le> \<bar>round_val x\<bar> then (if 0 < x then PInf else NInf)
      else Fin (round_val x))"

text \<open>The finite rationals that are binary64 values.\<close>

definition is_double :: "double \<Rightarrow> bool" where
  "is_double d = (case d of Fin x \<Rightarrow> round_double x = Fin x | _ \<Rightarrow> True)"

fun isfinite :: "double \<Rightarrow> bool" where
  "isfinite (Fin x) = True"
| "isfinite _ = False"

fun dsub :: "double \<Rightarrow> double \<Rightarrow> double" where
  "dsub NaN _ = NaN"
| "dsub _ NaN = NaN"
| "dsub PInf PInf = NaN"
| "dsub PInf _ = PInf"
| "dsub NInf NInf = NaN"
| "dsub NInf _ = NInf"
| "dsub (Fin x) PInf = NInf"
| "dsub (Fin x) NInf = PInf"
| "dsub (Fin x) (Fin y) = round_double (x - y)"

fun fabs :: "double \<Rightarrow> double" where
  "fabs NaN = NaN"
| "fabs PInf = PInf"
| "fabs NInf = PInf"
| "fabs (Fin x) = Fin \<bar>x\<bar>"

text \<open>The comparisons \<^verbatim>\<open><\<close>, \<^verbatim>\<open>==\<close> and \<^verbatim>\<open>>=\<close>: each is false as soon as one side is NaN.\<close>

fun dlt :: "double \<Rightarrow> double \<Rightarrow> bool" where
  "dlt NaN _ = False"
| "dlt _ NaN = False"
| "dlt PInf _ = False"
| "dlt NInf NInf = False"
| "dlt NInf _ = True"
| "dlt (Fin x) PInf = True"
| "dlt (Fin x) NInf = False"
| "dlt (Fin x) (Fin y) = (x < y)"

fun deq :: "double \<Rightarrow> double \<Rightarrow> bool" where
  "deq NaN _ = False"
| "deq _ NaN = False"
| "deq PInf PInf = True"
| "deq NInf NInf = True"
| "deq (Fin x) (Fin y) = (x = y)"
| "deq _ _ = False"

definition dge :: "double \<Rightarrow> double \<Rightarrow> bool" where
  "dge x y = (dlt y x \<or> deq x y)"

definition dle :: "double \<Rightarrow> double \<Rightarrow> bool" where
  "dle x y = dge y x"

subsection \<open>C int\<close>

type_synonym c_int = "32 word"

text \<open>
  \<^verbatim>\<open>(double) a/b\<close>, on the values of the two \<^verbatim>\<open>int\<close> variables: both operands are
  converted exactly (an \<^verbatim>\<open>int\<close> has at most 31 significant bits), then divided as
  doubles. Nothing guards the division: a zero divisor gives an infinity, or NaN for
  \<^verbatim>\<open>0.0/0.0\<close>.
\<close>

definition ratio :: "int \<Rightarrow> int \<Rightarrow> double" where
  "ratio x y =
     (if y = 0 then (if x = 0 then NaN else if 0 < x then PInf else NInf)
      else round_double (of_int x / of_int y))"

subsection \<open>iterateRationalApproximation\<close>

text \<open>The local variables of the C function (the loop counter \<^verbatim>\<open>i\<close> apart).\<close>

record state =
  a :: c_int
  b :: c_int
  lowerA :: c_int
  lowerB :: c_int
  upperA :: c_int
  upperB :: c_int
  microIterations :: c_int
  mantissa :: double
  precision :: double
  ab :: double

text \<open>The body of the \<^verbatim>\<open>for\<close> loop after the \<^verbatim>\<open>break\<close> test (lines 27 to 38).\<close>

definition inner_step :: "state \<Rightarrow> state" where
  "inner_step s =
     (let s1 = (if dlt (ab s) (mantissa s)
                then s\<lparr>lowerA := a s, lowerB := b s, a := a s + upperA s, b := b s + upperB s\<rparr>
                else s\<lparr>upperA := a s, upperB := b s, a := a s + lowerA s, b := b s + lowerB s\<rparr>)
      in s1\<lparr>ab := ratio (sint (a s1)) (sint (b s1))\<rparr>)"

text \<open>
  The \<^verbatim>\<open>for\<close> loop (lines 25 to 39); the first argument is the number of iterations
  still to run, \<^verbatim>\<open>microIterations - i\<close>.
\<close>

fun inner_loop :: "nat \<Rightarrow> state \<Rightarrow> state" where
  "inner_loop 0 s = s"
| "inner_loop (Suc n) s = (if deq (ab s) (mantissa s) then s else inner_loop n (inner_step s))"

definition batch :: "state \<Rightarrow> state" where
  "batch s = inner_loop (nat (sint (microIterations s))) s"

text \<open>The test of the \<^verbatim>\<open>while\<close> loop (line 23).\<close>

definition loop_cond :: "state \<Rightarrow> bool" where
  "loop_cond s = dge (fabs (dsub (ab s) (mantissa s))) (precision s)"

partial_function (option) outer_loop :: "state \<Rightarrow> state option" where
  "outer_loop s = (if loop_cond s then outer_loop (batch s) else Some s)"

declare outer_loop.simps [code]

text \<open>The state at line 22, from the parsed arguments.\<close>

definition init_state ::
  "c_int \<Rightarrow> c_int \<Rightarrow> c_int \<Rightarrow> c_int \<Rightarrow> c_int \<Rightarrow> c_int \<Rightarrow> double \<Rightarrow> double \<Rightarrow> c_int \<Rightarrow> state" where
  "init_state x y lx ly ux uy m p k =
     \<lparr>a = x, b = y, lowerA = lx, lowerB = ly, upperA = ux, upperB = uy,
      microIterations = k, mantissa = m, precision = p, ab = ratio (sint x) (sint y)\<rparr>"

text \<open>
  \<^verbatim>\<open>PyArg_ParseTuple\<close> with format \<^verbatim>\<open>i\<close> raises OverflowError for a Python integer that
  does not fit a C \<^verbatim>\<open>int\<close>; the function then returns \<^verbatim>\<open>NULL\<close>.
\<close>

datatype py_error = OverflowError

definition in_int_range :: "int \<Rightarrow> bool" where
  "in_int_range n = (- (2 ^ 31) \<le> n \<and> n < 2 ^ 31)"

definition result_pair :: "state \<Rightarrow> int \<times> int" where
  "result_pair s = (sint (a s), sint (b s))"

text \<open>The state at line 22 when the call is made with these Python integers and floats.\<close>

abbreviation entry_state ::
  "int \<Rightarrow> int \<Rightarrow> int \<Rightarrow> int \<Rightarrow> int \<Rightarrow> int \<Rightarrow> double \<Rightarrow> double \<Rightarrow> int \<Rightarrow> state" where
  "entry_state x y lx ly ux uy m p k \<equiv>
     init_state (word_of_int x) (word_of_int y) (word_of_int lx) (word_of_int ly)
       (word_of_int ux) (word_of_int uy) m p (word_of_int k)"

definition iterateRationalApproximation ::
  "int \<Rightarrow> int \<Rightarrow> int \<Rightarrow> int \<Rightarrow> int \<Rightarrow> int \<Rightarrow> double \<Rightarrow> double \<Rightarrow> int \<Rightarrow> (py_error + int \<times> int) option" where
  "iterateRationalApproximation x y lx ly ux uy m p k =
     (if list_all in_int_range [x, y, lx, ly, ux, uy, k]
      then map_option (\<lambda>s. Inr (result_pair s))
             (outer_loop (entry_state x y lx ly ux uy m p k))
      else Some (Inl OverflowError))"

subsection \<open>intSign\<close>

text \<open>
  Line 55. \<^verbatim>\<open>num >> 31\<close> on a negative \<^verbatim>\<open>int\<close> is the arithmetic shift; the argument
  \<^verbatim>\<open>zero\<close> is optional and starts at 0 (line 48).
\<close>

definition intSign_c :: "c_int \<Rightarrow> c_int \<Rightarrow> int" where
  "intSign_c num zero =
     (if (num AND num) = 0 then sint zero else sint (signed_drop_bit 31 num OR 1))"

definition intSign :: "int \<Rightarrow> int option \<Rightarrow> py_error + int" where
  "intSign num zero =
     (let z = (case zero of None \<Rightarrow> 0 | Some v \<Rightarrow> v) in
      if in_int_range num \<and> in_int_range z
      then Inr (intSign_c (word_of_int num) (word_of_int z))
      else Inl OverflowError)"

subsection \<open>What the specification asks of a result\<close>

text \<open>The returned pair is within the tolerance: \<^verbatim>\<open>|a/b - mantissa| < precision\<close>, in doubles.\<close>

definition within_tolerance :: "double \<Rightarrow> double \<Rightarrow> int \<times> int \<Rightarrow> bool" where
  "within_tolerance m p r = dlt (fabs (dsub (ratio (fst r) (snd r)) m)) p"






text \<open>The three fractions of a state as exact rationals.\<close>

definition cand_val :: "state \<Rightarrow> rat" where
  "cand_val s = of_int (sint (a s)) / of_int (sint (b s))"

definition lower_val :: "state \<Rightarrow> rat" where
  "lower_val s = of_int (sint (lowerA s)) / of_int (sint (lowerB s))"

definition upper_val :: "state \<Rightarrow> rat" where
  "upper_val s = of_int (sint (upperA s)) / of_int (sint (upperB s))"

text \<open>
  The bracketing invariant \<open>lower \<le> mantissa \<le> upper\<close> on bounds with positive
  denominators, read twice: on the doubles that the code would compute for the bounds,
  and on the exact rationals.
\<close>

definition bracketed :: "state \<Rightarrow> bool" where
  "bracketed s =
     (0 < sint (lowerB s) \<and> 0 < sint (upperB s)
      \<and> dle (ratio (sint (lowerA s)) (sint (lowerB s))) (mantissa s)
      \<and> dle (mantissa s) (ratio (sint (upperA s)) (sint (upperB s))))"

definition bracketed_exact :: "state \<Rightarrow> bool" where
  "bracketed_exact s =
     (0 < sint (lowerB s) \<and> 0 < sint (upperB s)
      \<and> (case mantissa s of Fin m \<Rightarrow> lower_val s \<le> m \<and> m \<le> upper_val s | _ \<Rightarrow> False))"

section \<open>Rounding to binary64\<close>

subsection \<open>The binary exponent\<close>

lemma quotient_of_pos:
  assumes "0 < x"
  shows "0 < fst (quotient_of x)" "0 < snd (quotient_of x)"
    "x = of_int (fst (quotient_of x)) / of_int (snd (quotient_of x))"
proof -
  obtain p q where pq: "quotient_of x = (p, q)" by (cases "quotient_of x")
  have q: "0 < q" using quotient_of_denom_pos [OF pq] .
  have x: "x = of_int p / of_int q" using quotient_of_div [OF pq] .
  have "0 < p" using assms q unfolding x by (simp add: zero_less_divide_iff)
  then show "0 < fst (quotient_of x)" by (simp add: pq)
  show "0 < snd (quotient_of x)" using q by (simp add: pq)
  show "x = of_int (fst (quotient_of x)) / of_int (snd (quotient_of x))"
    unfolding pq fst_conv snd_conv by (rule x)
qed

lemma bitlen_bounds_rat:
  assumes "0 < n"
  shows "(2::rat) powi (bitlen n - 1) \<le> of_int n" "of_int n < (2::rat) powi bitlen n"
proof -
  have b: "1 \<le> bitlen n" using assms bitlen_eq_zero_iff [of n] bitlen_nonneg [of n] by linarith
  have "2 ^ nat (bitlen n - 1) \<le> n" "n < 2 ^ nat (bitlen n)"
    using bitlen_bounds [OF assms] by auto
  then have "(of_int (2 ^ nat (bitlen n - 1)) :: rat) \<le> of_int n"
    "(of_int n :: rat) < of_int (2 ^ nat (bitlen n))"
    by (simp_all only: of_int_le_iff of_int_less_iff)
  then show "(2::rat) powi (bitlen n - 1) \<le> of_int n" "of_int n < (2::rat) powi bitlen n"
    using b by (simp_all add: power_int_def)
qed

lemma flog2_bounds:
  assumes "0 < x"
  shows "2 powi flog2 x \<le> x" "x < 2 powi (flog2 x + 1)"
proof -
  define p where "p = fst (quotient_of x)"
  define q where "q = snd (quotient_of x)"
  define d where "d = bitlen p - bitlen q"
  have p: "0 < p" and q: "0 < q" and x: "x = of_int p / of_int q"
    using quotient_of_pos [OF assms] by (simp_all add: p_def q_def)
  note bp = bitlen_bounds_rat [OF p] and bq = bitlen_bounds_rat [OF q]
  have qr: "(0::rat) < of_int q" using q by simp
  have lo: "2 powi (d - 1) \<le> x"
  proof -
    have "(2::rat) powi (d - 1) * of_int q \<le> 2 powi (d - 1) * 2 powi bitlen q"
      using bq(2) by (intro mult_left_mono) simp_all
    also have "\<dots> = 2 powi (bitlen p - 1)"
      by (simp add: d_def power_int_add [symmetric])
    also have "\<dots> \<le> of_int p" using bp(1) .
    finally show ?thesis using qr by (simp add: x pos_le_divide_eq)
  qed
  have hi: "x < 2 powi (d + 1)"
  proof -
    have "of_int p < (2::rat) powi bitlen p" using bp(2) .
    also have "\<dots> = 2 powi (d + 1) * 2 powi (bitlen q - 1)"
      by (simp add: d_def power_int_add [symmetric])
    also have "\<dots> \<le> 2 powi (d + 1) * of_int q"
      using bq(1) by (intro mult_left_mono) simp_all
    finally show ?thesis using qr by (simp add: x pos_divide_less_eq)
  qed
  have f: "flog2 x = (if 2 powi d \<le> x then d else d - 1)"
    by (simp add: flog2_def d_def p_def q_def Let_def)
  show "2 powi flog2 x \<le> x" using lo by (simp add: f)
  show "x < 2 powi (flog2 x + 1)" using hi by (auto simp add: f)
qed

lemma flog2_mono:
  assumes "0 < x" "x \<le> y"
  shows "flog2 x \<le> flog2 y"
proof (rule ccontr)
  assume "\<not> flog2 x \<le> flog2 y"
  then have "flog2 y + 1 \<le> flog2 x" by simp
  then have "(2::rat) powi (flog2 y + 1) \<le> 2 powi flog2 x"
    by (intro power_int_increasing) simp_all
  also have "\<dots> \<le> x" using flog2_bounds(1) [OF assms(1)] .
  also have "\<dots> \<le> y" by fact
  finally show False using flog2_bounds(2) [of y] assms by simp
qed

subsection \<open>Rounding to an integer\<close>

lemma rne_of_int: "rne (of_int n) = n"
  by (simp add: rne_def)

lemma rne_cases:
  "rne q = \<lfloor>q\<rfloor> \<and> q - of_int \<lfloor>q\<rfloor> \<le> 1 / 2 \<or> rne q = \<lfloor>q\<rfloor> + 1 \<and> 1 / 2 \<le> q - of_int \<lfloor>q\<rfloor>"
  by (auto simp add: rne_def Let_def)

lemma rne_mono:
  assumes "q \<le> q'"
  shows "rne q \<le> rne q'"
proof (cases "\<lfloor>q\<rfloor> = \<lfloor>q'\<rfloor>")
  case True
  then show ?thesis using assms by (auto simp add: rne_def Let_def)
next
  case False
  then have "\<lfloor>q\<rfloor> < \<lfloor>q'\<rfloor>" using floor_mono [OF assms] by simp
  moreover have "rne q \<le> \<lfloor>q\<rfloor> + 1" using rne_cases [of q] by auto
  moreover have "\<lfloor>q'\<rfloor> \<le> rne q'" using rne_cases [of q'] by auto
  ultimately show ?thesis by linarith
qed

lemma rne_minus: "rne (- q) = - rne q"
proof (cases "q = of_int \<lfloor>q\<rfloor>")
  case True
  then obtain n where "q = of_int n" ..
  then have "rne q = n" "rne (- q) = - n"
    using rne_of_int [of n] rne_of_int [of "- n"] by simp_all
  then show ?thesis by simp
next
  case False
  then have c: "\<lceil>q\<rceil> = \<lfloor>q\<rfloor> + 1"
    by (metis ceiling_altdef)
  have f: "\<lfloor>- q\<rfloor> = - \<lfloor>q\<rfloor> - 1" using c by (simp add: floor_minus)
  show ?thesis unfolding rne_def Let_def f by auto
qed

lemma rne_ge: "of_int n \<le> q \<Longrightarrow> n \<le> rne q"
  using rne_mono [of "of_int n" q] by (simp add: rne_of_int)

lemma rne_le: "q \<le> of_int n \<Longrightarrow> rne q \<le> n"
  using rne_mono [of q "of_int n"] by (simp add: rne_of_int)

subsection \<open>Rounding is monotone\<close>

lemma ulp_exp_minus: "ulp_exp (- x) = ulp_exp x"
  by (simp add: ulp_exp_def)

lemma round_val_minus: "round_val (- x) = - round_val x"
  by (simp add: round_val_def ulp_exp_minus rne_minus)

lemma round_val_0: "round_val 0 = 0"
  by (simp add: round_val_def rne_def)

lemma round_val_nonneg:
  assumes "0 \<le> x"
  shows "0 \<le> round_val x"
proof -
  have "(of_int 0 :: rat) \<le> x / 2 powi ulp_exp x" using assms by simp
  then have "0 \<le> rne (x / 2 powi ulp_exp x)" by (rule rne_ge)
  then show ?thesis by (simp add: round_val_def)
qed

text \<open>A normal or subnormal positive number, scaled by its unit in the last place.\<close>

lemma scaled_lt:
  assumes "0 < x"
  shows "x / 2 powi ulp_exp x < 2 ^ 53"
proof -
  have "x < 2 powi (flog2 x + 1)" using flog2_bounds(2) [OF assms] .
  also have "\<dots> \<le> 2 powi (ulp_exp x + 53)"
    using assms by (intro power_int_increasing) (simp_all add: ulp_exp_def)
  also have "\<dots> = 2 powi ulp_exp x * 2 ^ 53"
    by (simp add: power_int_add)
  finally show ?thesis by (simp add: pos_divide_less_eq mult.commute)
qed

lemma scaled_ge:
  assumes "0 < x" "- 1074 < ulp_exp x"
  shows "2 ^ 52 \<le> x / 2 powi ulp_exp x"
proof -
  have e: "ulp_exp x = flog2 x - 52" using assms by (simp add: ulp_exp_def max_def split: if_splits)
  have "2 powi ulp_exp x * 2 ^ 52 = (2::rat) powi (ulp_exp x + 52)"
    by (simp add: power_int_add)
  also have "\<dots> = 2 powi flog2 x" by (simp add: e)
  also have "\<dots> \<le> x" using flog2_bounds(1) [OF assms(1)] .
  finally show ?thesis by (simp add: pos_le_divide_eq mult.commute)
qed

lemma ulp_exp_mono:
  assumes "0 < x" "x \<le> y"
  shows "ulp_exp x \<le> ulp_exp y"
  using flog2_mono [OF assms] assms by (simp add: ulp_exp_def)

lemma round_val_mono_pos:
  assumes "0 < x" "x \<le> y"
  shows "round_val x \<le> round_val y"
proof (cases "ulp_exp x = ulp_exp y")
  case True
  have "x / 2 powi ulp_exp y \<le> y / 2 powi ulp_exp y"
    using assms(2) by (simp add: divide_right_mono)
  then have "rne (x / 2 powi ulp_exp y) \<le> rne (y / 2 powi ulp_exp y)" by (rule rne_mono)
  then show ?thesis by (simp add: round_val_def True)
next
  case False
  have y: "0 < y" using assms by simp
  have lt: "ulp_exp x + 1 \<le> ulp_exp y" using ulp_exp_mono [OF assms] False by simp
  have "- 1074 \<le> ulp_exp x" by (simp add: ulp_exp_def)
  then have "- 1074 < ulp_exp y" using lt by simp
  then have "(of_int (2 ^ 52) :: rat) \<le> y / 2 powi ulp_exp y"
    using scaled_ge [OF y] by simp
  then have ny: "2 ^ 52 \<le> rne (y / 2 powi ulp_exp y)" by (rule rne_ge)
  have "x / 2 powi ulp_exp x \<le> of_int (2 ^ 53)"
    using scaled_lt [OF assms(1)] by simp
  then have nx: "rne (x / 2 powi ulp_exp x) \<le> 2 ^ 53" by (rule rne_le)
  have "(of_int (rne (x / 2 powi ulp_exp x)) :: rat) \<le> of_int (2 ^ 53)"
    using nx by (simp only: of_int_le_iff)
  then have "round_val x \<le> of_int (2 ^ 53) * 2 powi ulp_exp x"
    unfolding round_val_def by (rule mult_right_mono) simp
  also have "\<dots> = 2 ^ 52 * 2 powi (ulp_exp x + 1)"
    by (simp add: power_int_add)
  also have "\<dots> \<le> 2 ^ 52 * 2 powi ulp_exp y"
    using lt by (intro mult_left_mono power_int_increasing) simp_all
  also have "\<dots> = of_int (2 ^ 52) * 2 powi ulp_exp y" by simp
  also have "\<dots> \<le> round_val y"
  proof -
    have "(of_int (2 ^ 52) :: rat) \<le> of_int (rne (y / 2 powi ulp_exp y))"
      using ny by (simp only: of_int_le_iff)
    then show ?thesis unfolding round_val_def by (rule mult_right_mono) simp
  qed
  finally show ?thesis .
qed

lemma round_val_mono:
  assumes "x \<le> y"
  shows "round_val x \<le> round_val y"
proof -
  consider "0 < x" | "x \<le> 0" "0 \<le> y" | "y < 0" by linarith
  then show ?thesis
  proof cases
    case 1
    then show ?thesis using assms by (rule round_val_mono_pos)
  next
    case 2
    have "round_val x \<le> 0" using round_val_nonneg [of "- x"] 2 by (simp add: round_val_minus)
    also have "0 \<le> round_val y" using 2 by (intro round_val_nonneg)
    finally show ?thesis .
  next
    case 3
    then have "round_val (- y) \<le> round_val (- x)"
      using assms by (intro round_val_mono_pos) simp_all
    then show ?thesis by (simp add: round_val_minus)
  qed
qed

subsection \<open>Binary64 values are fixed points of rounding\<close>

lemma round_val_fixed_pos:
  assumes "0 < n" "n < 2 ^ 53" "- 1074 \<le> e"
  shows "round_val (of_int n * 2 powi e) = of_int n * 2 powi e"
proof -
  define x :: rat where "x = of_int n * 2 powi e"
  define u where "u = ulp_exp x"
  have x: "0 < x" using assms(1) by (simp add: x_def)
  have "x < of_int (2 ^ 53) * 2 powi e"
    unfolding x_def using assms(2) by (intro mult_strict_right_mono) (simp_all only: of_int_less_iff, simp)
  also have "\<dots> = 2 powi (e + 53)" by (simp add: power_int_add)
  finally have xlt: "x < 2 powi (e + 53)" .
  have "flog2 x < e + 53"
  proof (rule ccontr)
    assume "\<not> flog2 x < e + 53"
    then have "(2::rat) powi (e + 53) \<le> 2 powi flog2 x"
      by (intro power_int_increasing) simp_all
    also have "\<dots> \<le> x" using flog2_bounds(1) [OF x] .
    finally show False using xlt by simp
  qed
  then have ue: "u \<le> e" using assms(3) x by (simp add: u_def ulp_exp_def)
  have "x / 2 powi u = of_int n * 2 powi (e - u)"
    by (simp add: x_def power_int_diff)
  also have "\<dots> = of_int (n * 2 ^ nat (e - u))"
    using ue by (simp add: power_int_def)
  finally have "rne (x / 2 powi u) = n * 2 ^ nat (e - u)" by (simp only: rne_of_int)
  then have "round_val x = of_int (n * 2 ^ nat (e - u)) * 2 powi u"
    by (simp add: round_val_def u_def)
  also have "\<dots> = of_int n * (2 powi (e - u) * 2 powi u)"
    using ue by (simp add: power_int_def)
  also have "\<dots> = x" by (simp add: x_def power_int_add [symmetric])
  finally show ?thesis by (simp add: x_def)
qed

lemma round_val_fixed:
  assumes "\<bar>n\<bar> < 2 ^ 53" "- 1074 \<le> e"
  shows "round_val (of_int n * 2 powi e) = of_int n * 2 powi e"
proof -
  consider "0 < n" | "n = 0" | "n < 0" by linarith
  then show ?thesis
  proof cases
    case 1
    then show ?thesis using assms by (intro round_val_fixed_pos) simp_all
  next
    case 2
    then show ?thesis by (simp add: round_val_0)
  next
    case 3
    then have "round_val (of_int (- n) * 2 powi e) = of_int (- n) * 2 powi e"
      using assms by (intro round_val_fixed_pos) simp_all
    then show ?thesis using round_val_minus [of "of_int n * 2 powi e"] by simp
  qed
qed

text \<open>A quotient of two C \<^verbatim>\<open>int\<close>s, the divisor not zero, is a finite double.\<close>

lemma round_val_pow2: "- 1074 \<le> e \<Longrightarrow> round_val (2 powi e) = 2 powi e"
  using round_val_fixed [of 1 e] by simp

lemma round_double_alt:
  "round_double x =
     (if 2 powi 1024 \<le> round_val x then PInf
      else if round_val x \<le> - (2 powi 1024) then NInf
      else Fin (round_val x))"
proof -
  have p: "(0::rat) < 2 powi 1024" by simp
  consider "0 < x" | "x = 0" | "x < 0" by linarith
  then show ?thesis
  proof cases
    case 1
    then have "0 \<le> round_val x" by (intro round_val_nonneg) simp
    then show ?thesis using 1 p unfolding round_double_def by (auto simp add: abs_if)
  next
    case 2
    then show ?thesis using p unfolding round_double_def by (simp add: round_val_0)
  next
    case 3
    then have "0 \<le> round_val (- x)" by (intro round_val_nonneg) simp
    then have "round_val x \<le> 0" by (simp add: round_val_minus)
    then show ?thesis using 3 p unfolding round_double_def by (auto simp add: abs_if)
  qed
qed

lemma round_double_mono:
  assumes "x \<le> y"
  shows "dle (round_double x) (round_double y)"
  using round_val_mono [OF assms]
  by (auto simp add: round_double_alt dle_def dge_def)

lemma round_double_fixed:
  assumes "\<bar>n\<bar> < 2 ^ 53" "- 1074 \<le> e" "e \<le> 971"
  shows "round_double (of_int n * 2 powi e) = Fin (of_int n * 2 powi e)"
proof -
  have "\<bar>of_int n * 2 powi e :: rat\<bar> = of_int \<bar>n\<bar> * 2 powi e" by (simp add: abs_mult)
  also have "\<dots> < of_int (2 ^ 53) * 2 powi e"
    using assms(1) by (intro mult_strict_right_mono) (simp_all only: of_int_less_iff, simp)
  also have "\<dots> = 2 powi (e + 53)" by (simp add: power_int_add)
  also have "\<dots> \<le> 2 powi 1024" using assms(3) by (intro power_int_increasing) simp_all
  finally have "\<bar>of_int n * 2 powi e :: rat\<bar> < 2 powi 1024" .
  then show ?thesis
    unfolding round_double_alt round_val_fixed [OF assms(1,2)] by (auto simp add: abs_if split: if_splits)
qed

lemma round_double_dyadic:
  assumes "x = of_int n * 2 powi e" "\<bar>n\<bar> < 2 ^ 53" "- 1074 \<le> e" "e \<le> 971"
  shows "round_double x = Fin x"
  unfolding assms(1) using assms(2-4) by (rule round_double_fixed)

lemma round_double_of_int:
  assumes "\<bar>n\<bar> < 2 ^ 53"
  shows "round_double (of_int n) = Fin (of_int n)"
  using round_double_fixed [OF assms, of 0] by simp

lemma round_double_not_NaN: "round_double x \<noteq> NaN"
  by (simp add: round_double_def)

lemma is_double_round_val: "is_double (Fin m) \<Longrightarrow> round_val m = m"
  by (simp add: is_double_def round_double_alt split: if_splits)

subsection \<open>Bounds on a rounded value\<close>

text \<open>Comparing a rounded quotient with a double decides the comparison of the quotient.\<close>

lemma round_val_less_imp_less:
  assumes "is_double (Fin m)" "round_val q < m"
  shows "q < m"
proof (rule ccontr)
  assume "\<not> q < m"
  then have "round_val m \<le> round_val q" by (intro round_val_mono) simp
  then show False using assms by (simp add: is_double_round_val)
qed

lemma round_val_greater_imp_greater:
  assumes "is_double (Fin m)" "m < round_val q"
  shows "m < q"
proof (rule ccontr)
  assume "\<not> m < q"
  then have "round_val q \<le> round_val m" by (intro round_val_mono) simp
  then show False using assms by (simp add: is_double_round_val)
qed

lemma round_val_abs_le_pow2:
  assumes "\<bar>x\<bar> \<le> 2 powi e" "- 1074 \<le> e"
  shows "\<bar>round_val x\<bar> \<le> 2 powi e"
proof -
  have "round_val x \<le> round_val (2 powi e)" using assms(1) by (intro round_val_mono) simp
  moreover have "round_val (- (2 powi e)) \<le> round_val x" using assms(1) by (intro round_val_mono) simp
  ultimately show ?thesis by (simp add: round_val_minus round_val_pow2 [OF assms(2)] abs_le_iff)
qed


subsection \<open>Some doubles\<close>

lemma round_double_0: "round_double 0 = Fin 0"
  by (simp add: round_double_def)

lemma round_double_1: "round_double 1 = Fin 1"
  using round_double_of_int [of 1] by simp

lemma round_double_minus_1: "round_double (- 1) = Fin (- 1)"
  using round_double_of_int [of "- 1"] by simp

lemma round_double_half: "round_double (1 / 2) = Fin (1 / 2)"
  using round_double_dyadic [of "1 / 2" 1 "- 1"] by simp

lemma round_double_minus_half: "round_double (- (1 / 2)) = Fin (- (1 / 2))"
  using round_double_dyadic [of "- (1 / 2)" "- 1" "- 1"] by simp

lemma round_double_quarter: "round_double (1 / 4) = Fin (1 / 4)"
  using round_double_dyadic [of "1 / 4" 1 "- 2"] by simp

lemma is_double_3_4: "is_double (Fin (3 / 4))"
  using round_double_dyadic [of "3 / 4" 3 "- 2"] by (simp add: is_double_def)

section \<open>Comparisons of doubles\<close>

lemma dlt_not_dge: "dlt x y \<Longrightarrow> \<not> dge x y"
  by (cases x; cases y) (auto simp add: dge_def)

lemma not_dge_dlt: "x \<noteq> NaN \<Longrightarrow> y \<noteq> NaN \<Longrightarrow> \<not> dge x y \<Longrightarrow> dlt x y"
  by (cases x; cases y) (auto simp add: dge_def)

lemma not_dlt_dlt: "x \<noteq> NaN \<Longrightarrow> y \<noteq> NaN \<Longrightarrow> \<not> deq x y \<Longrightarrow> \<not> dlt x y \<Longrightarrow> dlt y x"
  by (cases x; cases y) auto

lemma dlt_imp_dle: "dlt x y \<Longrightarrow> dle x y"
  by (simp add: dle_def dge_def)

lemma dle_not_NaN: "dle x y \<Longrightarrow> x \<noteq> NaN \<and> y \<noteq> NaN"
  by (cases x; cases y) (simp_all add: dle_def dge_def)


lemma dge_NaN: "\<not> dge NaN y" "\<not> dge x NaN"
  by (cases y; simp add: dge_def) (cases x; simp add: dge_def)

lemma fabs_NaN_iff: "fabs x = NaN \<longleftrightarrow> x = NaN"
  by (cases x) simp_all

lemma dsub_finite_not_NaN: "isfinite x \<Longrightarrow> y \<noteq> NaN \<Longrightarrow> dsub x y \<noteq> NaN"
  by (cases x; cases y) (simp_all add: round_double_not_NaN)


lemma deq_diff_not_ge:
  assumes "deq x m" "dlt (Fin 0) p"
  shows "\<not> dge (fabs (dsub x m)) p"
  using assms by (cases x; cases m; cases p) (auto simp add: dge_def round_double_def)


section \<open>C int and the ratio of two of them\<close>

lemma sint_word_of_int_in_range:
  assumes "in_int_range n"
  shows "sint (word_of_int n :: c_int) = n"
  using assms by (simp add: in_int_range_def sint_sbintrunc' signed_take_bit_int_eq_self)

lemma word_of_int_eq_0_in_range:
  assumes "in_int_range n"
  shows "(word_of_int n :: c_int) = 0 \<longleftrightarrow> n = 0"
  using sint_word_of_int_in_range [OF assms]
    word_eq_iff_signed [where ?'a = int, of "word_of_int n :: c_int" 0] by simp

lemma sint_in_int_range: "in_int_range (sint (w :: c_int))"
  using sint_ge [of w] sint_lt [of w] by (simp add: in_int_range_def)

text \<open>An addition of C \<^verbatim>\<open>int\<close>s that stays in range is the addition of the integers.\<close>

lemma sint_plus_in_range:
  fixes v w :: c_int
  assumes "in_int_range (sint v + sint w)"
  shows "sint (v + w) = sint v + sint w"
  using assms by (simp add: in_int_range_def sint_word_ariths signed_take_bit_int_eq_self)

lemma int_quotient_bound:
  assumes "in_int_range x" "in_int_range y" "y \<noteq> 0"
  shows "\<bar>of_int x / of_int y :: rat\<bar> \<le> 2 ^ 31"
proof -
  have x: "\<bar>x\<bar> \<le> 2 ^ 31" and y: "1 \<le> \<bar>y\<bar>" using assms by (auto simp add: in_int_range_def)
  have "\<bar>of_int x / of_int y :: rat\<bar> = of_int \<bar>x\<bar> / of_int \<bar>y\<bar>" by simp
  also have "\<dots> \<le> of_int \<bar>x\<bar> / 1"
    using y by (intro divide_left_mono) simp_all
  also have "\<dots> \<le> of_int (2 ^ 31)" using x by (simp only: div_by_1 of_int_le_iff)
  finally show ?thesis by simp
qed


lemma ratio_zero_divisor:
  "ratio x 0 = (if x = 0 then NaN else if 0 < x then PInf else NInf)"
  by (simp add: ratio_def)

lemma ratio_finite:
  assumes "in_int_range x" "in_int_range y" "y \<noteq> 0"
  shows "ratio x y = Fin (round_val (of_int x / of_int y))"
proof -
  have "\<bar>of_int x / of_int y :: rat\<bar> \<le> 2 powi 31" using int_quotient_bound [OF assms] by simp
  then have "\<bar>round_val (of_int x / of_int y)\<bar> \<le> 2 powi 31" by (rule round_val_abs_le_pow2) simp
  also have "\<dots> < (2::rat) powi 1024" by (intro power_int_strict_increasing) simp_all
  finally show ?thesis using assms(3) by (auto simp add: ratio_def round_double_alt abs_if split: if_splits)
qed



lemma ratio_1_2: "ratio 1 2 = Fin (1 / 2)"
  using round_double_dyadic [of "1 / 2" 1 "- 1"] by (simp add: ratio_def)

lemma ratio_3_4: "ratio 3 4 = Fin (3 / 4)"
  using round_double_dyadic [of "3 / 4" 3 "- 2"] by (simp add: ratio_def)

lemma ratio_1_1: "ratio 1 1 = Fin 1" "ratio (- 1) (- 1) = Fin 1"
  by (simp_all add: ratio_def round_double_1)

lemma ratio_5_1: "ratio 5 1 = Fin 5"
  using round_double_of_int [of 5] by (simp add: ratio_def)

lemma ratio_1_3_lower: "\<exists>v. ratio 1 3 = Fin v \<and> 5 / 16 \<le> v"
proof -
  have r: "ratio 1 3 = Fin (round_val (of_int 1 / of_int 3))"
    by (rule ratio_finite) (simp_all add: in_int_range_def)
  have "round_val (of_int 5 * 2 powi (- 4)) \<le> round_val (1 / 3)"
    by (rule round_val_mono) simp
  then have "5 / 16 \<le> round_val (1 / 3)"
    using round_val_fixed [of 5 "- 4"] by simp
  then show ?thesis using r by simp
qed


section \<open>The loops\<close>

subsection \<open>What a pass leaves unchanged\<close>

lemma inner_step_consts:
  "mantissa (inner_step s) = mantissa s" "precision (inner_step s) = precision s"
  "microIterations (inner_step s) = microIterations s"
  by (simp_all add: inner_step_def Let_def)

lemma inner_step_ab: "ab (inner_step s) = ratio (sint (a (inner_step s))) (sint (b (inner_step s)))"
  by (simp add: inner_step_def Let_def)

lemma inner_loop_consts:
  "mantissa (inner_loop n s) = mantissa s \<and> precision (inner_loop n s) = precision s
   \<and> microIterations (inner_loop n s) = microIterations s"
  by (induction n s rule: inner_loop.induct) (simp_all add: inner_step_consts)

lemma inner_loop_ab:
  "ab s = ratio (sint (a s)) (sint (b s)) \<Longrightarrow>
   ab (inner_loop n s) = ratio (sint (a (inner_loop n s))) (sint (b (inner_loop n s)))"
  by (induction n s rule: inner_loop.induct) (simp_all add: inner_step_ab)

lemma batch_consts:
  "mantissa (batch s) = mantissa s" "precision (batch s) = precision s"
  "microIterations (batch s) = microIterations s"
  by (simp_all add: batch_def inner_loop_consts)

lemma batch_ab:
  "ab s = ratio (sint (a s)) (sint (b s)) \<Longrightarrow> ab (batch s) = ratio (sint (a (batch s))) (sint (b (batch s)))"
  by (simp add: batch_def inner_loop_ab)

lemma batches_consts:
  "mantissa ((batch ^^ k) s) = mantissa s \<and> precision ((batch ^^ k) s) = precision s
   \<and> microIterations ((batch ^^ k) s) = microIterations s"
  by (induction k) (simp_all add: batch_consts)

lemma batches_ab:
  "ab s = ratio (sint (a s)) (sint (b s)) \<Longrightarrow>
   ab ((batch ^^ k) s) = ratio (sint (a ((batch ^^ k) s))) (sint (b ((batch ^^ k) s)))"
  by (induction k) (simp_all add: batch_ab)

lemma batch_one:
  assumes "sint (microIterations s) = 1" "\<not> deq (ab s) (mantissa s)"
  shows "batch s = inner_step s"
  using assms by (simp add: batch_def)

lemma batch_nonpositive:
  assumes "sint (microIterations s) \<le> 0"
  shows "batch s = s"
  using assms by (simp add: batch_def)

lemma batches_nonpositive:
  assumes "sint (microIterations s) \<le> 0"
  shows "(batch ^^ k) s = s"
  by (induction k) (simp_all add: batch_nonpositive [OF assms])

subsection \<open>The while loop\<close>

lemma outer_loop_step: "loop_cond s \<Longrightarrow> outer_loop s = outer_loop (batch s)"
  by (subst outer_loop.simps) simp

lemma outer_loop_stop: "\<not> loop_cond s \<Longrightarrow> outer_loop s = Some s"
  by (subst outer_loop.simps) simp

text \<open>The \<^verbatim>\<open>while\<close> loop returns the state of the first pass that fails its test.\<close>

lemma outer_loop_Some:
  assumes "outer_loop s = Some r"
  shows "\<exists>k. r = (batch ^^ k) s \<and> \<not> loop_cond r \<and> (\<forall>j<k. loop_cond ((batch ^^ j) s))"
proof (rule outer_loop.raw_induct
    [where P = "\<lambda>s r. \<exists>k. r = (batch ^^ k) s \<and> \<not> loop_cond r \<and> (\<forall>j<k. loop_cond ((batch ^^ j) s))",
      OF _ assms])
  fix f s r
  assume IH: "\<And>x y. f x = Some y \<Longrightarrow>
      \<exists>k. y = (batch ^^ k) x \<and> \<not> loop_cond y \<and> (\<forall>j<k. loop_cond ((batch ^^ j) x))"
    and eq: "(if loop_cond s then f (batch s) else Some s) = Some r"
  show "\<exists>k. r = (batch ^^ k) s \<and> \<not> loop_cond r \<and> (\<forall>j<k. loop_cond ((batch ^^ j) s))"
  proof (cases "loop_cond s")
    case False
    then have "r = s" using eq by simp
    then show ?thesis using False by (intro exI [of _ 0]) simp
  next
    case True
    then have "f (batch s) = Some r" using eq by simp
    then obtain k where k: "r = (batch ^^ k) (batch s)" "\<not> loop_cond r"
      "\<forall>j<k. loop_cond ((batch ^^ j) (batch s))" using IH by blast
    have "\<forall>j<Suc k. loop_cond ((batch ^^ j) s)"
    proof (intro allI impI)
      fix j assume j: "j < Suc k"
      show "loop_cond ((batch ^^ j) s)"
      proof (cases j)
        case 0
        then show ?thesis using True by simp
      next
        case (Suc i)
        then show ?thesis using k(3) j by (simp add: funpow_swap1)
      qed
    qed
    then show ?thesis using k(1,2) by (intro exI [of _ "Suc k"]) (simp add: funpow_swap1)
  qed
qed

lemma outer_loop_None:
  assumes "\<And>k. loop_cond ((batch ^^ k) s)"
  shows "outer_loop s = None"
proof (cases "outer_loop s")
  case None
  then show ?thesis .
next
  case (Some r)
  then show ?thesis using outer_loop_Some [OF Some] assms by auto
qed

text \<open>What the \<^verbatim>\<open>while\<close> loop guarantees of the state it returns.\<close>

lemma outer_loop_result:
  assumes "outer_loop s = Some r" "ab s = ratio (sint (a s)) (sint (b s))"
  shows "\<not> loop_cond r" "ab r = ratio (sint (a r)) (sint (b r))"
    "mantissa r = mantissa s" "precision r = precision s"
proof -
  obtain k where k: "r = (batch ^^ k) s" "\<not> loop_cond r"
    using outer_loop_Some [OF assms(1)] by blast
  show "\<not> loop_cond r" by (rule k(2))
  show "ab r = ratio (sint (a r)) (sint (b r))" unfolding k(1) using assms(2) by (rule batches_ab)
  show "mantissa r = mantissa s" "precision r = precision s" by (simp_all add: k(1) batches_consts)
qed

lemma loop_cond_NaN: "ab s = NaN \<Longrightarrow> \<not> loop_cond s"
  by (simp add: loop_cond_def dge_NaN)


subsection \<open>The call\<close>

lemma init_consts:
  "mantissa (init_state x y lx ly ux uy m p k) = m"
  "precision (init_state x y lx ly ux uy m p k) = p"
  "microIterations (init_state x y lx ly ux uy m p k) = k"
  by (simp_all add: init_state_def)

lemma ab_init:
  assumes "in_int_range x" "in_int_range y"
  shows "ab (init_state (word_of_int x) (word_of_int y) lx ly ux uy m p k) = ratio x y"
  using assms by (simp add: init_state_def sint_word_of_int_in_range)

lemma result_pair_init:
  assumes "in_int_range x" "in_int_range y"
  shows "result_pair (init_state (word_of_int x) (word_of_int y) lx ly ux uy m p k) = (x, y)"
  using assms by (simp add: result_pair_def init_state_def sint_word_of_int_in_range)

lemma loop_cond_init:
  assumes "in_int_range x" "in_int_range y"
  shows "loop_cond (init_state (word_of_int x) (word_of_int y) lx ly ux uy m p k)
    \<longleftrightarrow> dge (fabs (dsub (ratio x y) m)) p"
  by (simp add: loop_cond_def ab_init [OF assms] init_consts)

lemma iterate_result:
  assumes "iterateRationalApproximation x y lx ly ux uy m p k = Some (Inr (x', y'))"
  shows "in_int_range x' \<and> in_int_range y' \<and> \<not> dge (fabs (dsub (ratio x' y') m)) p"
proof -
  let ?s = "entry_state x y lx ly ux uy m p k"
  have r: "list_all in_int_range [x, y, lx, ly, ux, uy, k]"
    using assms by (auto simp add: iterateRationalApproximation_def split: if_splits)
  then obtain t where t: "outer_loop ?s = Some t" "result_pair t = (x', y')"
    using assms by (auto simp add: iterateRationalApproximation_def)
  have i: "ab ?s = ratio (sint (a ?s)) (sint (b ?s))" by (simp add: init_state_def)
  note o = outer_loop_result [OF t(1) i]
  have xy: "x' = sint (a t)" "y' = sint (b t)" using t(2) by (simp_all add: result_pair_def)
  have "\<not> dge (fabs (dsub (ratio x' y') m)) p"
    using o(1) unfolding loop_cond_def o(2) o(3) o(4) xy by (simp add: init_consts)
  then show ?thesis by (simp add: xy sint_in_int_range)
qed


subsection \<open>Mediant steps\<close>

lemma ratio_state_finite:
  assumes "sint (b s) \<noteq> 0"
  shows "ratio (sint (a s)) (sint (b s)) = Fin (round_val (cand_val s))"
  unfolding cand_val_def using assms by (intro ratio_finite sint_in_int_range)

lemma inner_step_bracketed:
  assumes "0 < sint (b s)" "ab s = ratio (sint (a s)) (sint (b s))"
    "\<not> deq (ab s) (mantissa s)" "bracketed s"
  shows "bracketed (inner_step s)"
proof (cases "dlt (ab s) (mantissa s)")
  case True
  then have "dle (ratio (sint (a s)) (sint (b s))) (mantissa s)"
    unfolding assms(2) by (rule dlt_imp_dle)
  then show ?thesis using True assms(1,4) by (simp add: bracketed_def inner_step_def Let_def)
next
  case False
  have m: "mantissa s \<noteq> NaN" using assms(4) dle_not_NaN by (auto simp add: bracketed_def)
  have "ab s \<noteq> NaN" using ratio_state_finite [of s] assms(1,2) by simp
  then have "dlt (mantissa s) (ab s)" using m assms(3) False by (intro not_dlt_dlt)
  then have "dle (mantissa s) (ratio (sint (a s)) (sint (b s)))"
    unfolding assms(2) by (rule dlt_imp_dle)
  then show ?thesis using False assms(1,4) by (simp add: bracketed_def inner_step_def Let_def)
qed

lemma inner_step_bracketed_exact:
  assumes "0 < sint (b s)" "ab s = ratio (sint (a s)) (sint (b s))"
    "\<not> deq (ab s) (mantissa s)" "is_double (mantissa s)" "bracketed_exact s"
  shows "bracketed_exact (inner_step s)"
proof -
  obtain m where m: "mantissa s = Fin m"
    using assms(5) by (cases "mantissa s") (simp_all add: bracketed_exact_def)
  have d: "is_double (Fin m)" using assms(4) m by simp
  have ab: "ab s = Fin (round_val (cand_val s))"
    using ratio_state_finite [of s] assms(1,2) by simp
  show ?thesis
  proof (cases "dlt (ab s) (mantissa s)")
    case True
    then have "round_val (cand_val s) < m" by (simp add: ab m)
    then have "cand_val s < m" by (rule round_val_less_imp_less [OF d])
    then show ?thesis
      using True assms(1,5) m
      by (simp add: bracketed_exact_def inner_step_def Let_def lower_val_def upper_val_def cand_val_def)
  next
    case False
    then have "m < round_val (cand_val s)" using assms(3) by (simp add: ab m)
    then have "m < cand_val s" by (rule round_val_greater_imp_greater [OF d])
    then show ?thesis
      using False assms(1,5) m
      by (simp add: bracketed_exact_def inner_step_def Let_def lower_val_def upper_val_def cand_val_def)
  qed
qed

text \<open>The mediant of two fractions with positive denominators lies strictly between them.\<close>

lemma mediant_between:
  fixes p q r s :: rat
  assumes "0 < q" "0 < s" "p / q < r / s"
  shows "p / q < (p + r) / (q + s)" "(p + r) / (q + s) < r / s"
proof -
  have c: "p * s < r * q" using assms by (simp add: divide_simps mult.commute)
  have qs: "0 < q + s" using assms by simp
  have "p * (q + s) < (p + r) * q" using c by (simp add: algebra_simps)
  then show "p / q < (p + r) / (q + s)" using assms(1) qs by (simp add: divide_simps mult.commute)
  have "(p + r) * s < r * (q + s)" using c by (simp add: algebra_simps)
  then show "(p + r) / (q + s) < r / s" using assms(2) qs by (simp add: divide_simps mult.commute)
qed

lemma inner_step_moves_one_bound:
  "lower_val (inner_step s) = (if dlt (ab s) (mantissa s) then cand_val s else lower_val s)"
  "upper_val (inner_step s) = (if dlt (ab s) (mantissa s) then upper_val s else cand_val s)"
  by (simp_all add: inner_step_def Let_def lower_val_def upper_val_def cand_val_def)

lemma inner_step_cand_between:
  assumes "0 < sint (b s)" "0 < sint (lowerB s)" "0 < sint (upperB s)"
    and "lower_val s < cand_val s" "cand_val s < upper_val s"
    and "in_int_range (sint (a s) + sint (if dlt (ab s) (mantissa s) then upperA s else lowerA s))"
    and "in_int_range (sint (b s) + sint (if dlt (ab s) (mantissa s) then upperB s else lowerB s))"
  shows "0 < sint (b (inner_step s)) \<and> 0 < sint (lowerB (inner_step s))
    \<and> 0 < sint (upperB (inner_step s))
    \<and> lower_val (inner_step s) < cand_val (inner_step s)
    \<and> cand_val (inner_step s) < upper_val (inner_step s)"
proof (cases "dlt (ab s) (mantissa s)")
  case True
  have c: "cand_val (inner_step s)
      = (of_int (sint (a s)) + of_int (sint (upperA s))) / (of_int (sint (b s)) + of_int (sint (upperB s)))"
    using True assms(6,7) by (simp add: inner_step_def Let_def cand_val_def sint_plus_in_range)
  have b: "sint (b (inner_step s)) = sint (b s) + sint (upperB s)"
    using True assms(7) by (simp add: inner_step_def Let_def sint_plus_in_range)
  have "(0::rat) < of_int (sint (b s))" "(0::rat) < of_int (sint (upperB s))"
    "(of_int (sint (a s)) :: rat) / of_int (sint (b s))
      < of_int (sint (upperA s)) / of_int (sint (upperB s))"
    using assms(1,3,5) by (simp_all add: cand_val_def upper_val_def del: of_int_sint)
  note mediant_between [OF this]
  then have "cand_val s < cand_val (inner_step s)" "cand_val (inner_step s) < upper_val s"
    unfolding c by (simp_all add: cand_val_def upper_val_def del: of_int_sint)
  then show ?thesis
    using True assms(1,2,3) b by (simp add: inner_step_moves_one_bound) (simp add: inner_step_def Let_def)
next
  case False
  have c: "cand_val (inner_step s)
      = (of_int (sint (lowerA s)) + of_int (sint (a s))) / (of_int (sint (lowerB s)) + of_int (sint (b s)))"
    using False assms(6,7) by (simp add: inner_step_def Let_def cand_val_def sint_plus_in_range add.commute)
  have b: "sint (b (inner_step s)) = sint (b s) + sint (lowerB s)"
    using False assms(7) by (simp add: inner_step_def Let_def sint_plus_in_range)
  have "(0::rat) < of_int (sint (lowerB s))" "(0::rat) < of_int (sint (b s))"
    "(of_int (sint (lowerA s)) :: rat) / of_int (sint (lowerB s))
      < of_int (sint (a s)) / of_int (sint (b s))"
    using assms(1,2,4) by (simp_all add: cand_val_def lower_val_def del: of_int_sint)
  note mediant_between [OF this]
  then have "lower_val s < cand_val (inner_step s)" "cand_val (inner_step s) < cand_val s"
    unfolding c by (simp_all add: cand_val_def lower_val_def del: of_int_sint)
  then show ?thesis
    using False assms(1,2,3) b by (simp add: inner_step_moves_one_bound) (simp add: inner_step_def Let_def)
qed

subsection \<open>Progress of the search\<close>








subsection \<open>Two runs\<close>

lemma run_0_1_half:
  "iterateRationalApproximation 0 1 0 1 1 1 (Fin (1 / 2)) (Fin (1 / 1024)) 1 = Some (Inr (1, 2))"
proof -
  let ?s = "init_state 0 1 0 1 1 1 (Fin (1 / 2)) (Fin (1 / 1024)) 1"
  have ab: "ab ?s = Fin 0" by (simp add: init_state_def ratio_def round_double_0)
  have c: "loop_cond ?s"
    by (simp add: loop_cond_def ab init_consts round_double_minus_half dge_def)
  have b: "batch ?s = inner_step ?s" by (rule batch_one) (simp_all add: ab init_consts)
  have t: "a (inner_step ?s) = 1" "b (inner_step ?s) = 2" "ab (inner_step ?s) = Fin (1 / 2)"
    "mantissa (inner_step ?s) = Fin (1 / 2)" "precision (inner_step ?s) = Fin (1 / 1024)"
    by (simp_all add: inner_step_def Let_def init_state_def ratio_def round_double_0 round_double_half)
  have n: "\<not> loop_cond (inner_step ?s)"
    by (simp add: loop_cond_def t round_double_0 dge_def)
  have "outer_loop ?s = outer_loop (inner_step ?s)" using outer_loop_step [OF c] b by simp
  also have "\<dots> = Some (inner_step ?s)" using n by (rule outer_loop_stop)
  finally have "outer_loop ?s = Some (inner_step ?s)" .
  then show ?thesis
    by (simp add: iterateRationalApproximation_def in_int_range_def result_pair_def t)
qed


section \<open>The sign of a C int\<close>

lemma shift_or_sign:
  fixes w :: c_int
  shows "sint (signed_drop_bit 31 w OR 1) = (if sint w < 0 then - 1 else 1)"
proof -
  have r: "- (2 ^ 31) \<le> sint w" "sint w < 2 ^ 31"
    using sint_ge [of w] sint_lt [of w] by simp_all
  have "sint (signed_drop_bit 31 w) = sint w div 2 ^ 31"
    by (simp add: sint_signed_drop_bit_eq drop_bit_eq_div)
  also have "\<dots> = (if sint w < 0 then - 1 else 0)"
    using r by (auto simp add: div_pos_pos_trivial)
  finally have s: "sint (signed_drop_bit 31 w) = (if sint w < 0 then - 1 else 0)" .
  have "signed_drop_bit 31 w = (if sint w < 0 then - 1 else 0)"
    using s word_eq_iff_signed [where ?'a = int, of "signed_drop_bit 31 w"] by simp
  then show ?thesis by simp
qed

lemma intSign_c_eq:
  "intSign_c w z = (if w = 0 then sint z else if 0 < sint w then 1 else - 1)"
proof (cases "w = 0")
  case True
  then show ?thesis by (simp add: intSign_c_def)
next
  case False
  then have "sint w \<noteq> 0" using word_eq_iff_signed [where ?'a = int, of w 0] by simp
  then show ?thesis using False by (simp add: intSign_c_def shift_or_sign)
qed

section \<open>The claims\<close>




text \<open>
  C2 fails on \<^verbatim>\<open>iterateRationalApproximation(-1, -1, 0, 1, 1, 1, 2.0, 2**-10, 1)\<close>: the ratio
  \<open>1.0\<close> is below \<open>2.0\<close>, the step adds the upper bound \<open>1/1\<close> and the candidate becomes
  \<open>0/0\<close>, whose ratio is NaN; the loop test is false on NaN and \<open>(0, 0)\<close> is returned.
\<close>

theorem returns_outside_tolerance_counterexample:
  "iterateRationalApproximation (- 1) (- 1) 0 1 1 1 (Fin 2) (Fin (1 / 1024)) 1 = Some (Inr (0, 0))
   \<and> \<not> within_tolerance (Fin 2) (Fin (1 / 1024)) (0, 0)"
proof -
  let ?s = "init_state (- 1) (- 1) 0 1 1 1 (Fin 2) (Fin (1 / 1024)) 1"
  have ab: "ab ?s = Fin 1" by (simp add: init_state_def ratio_1_1)
  have c: "loop_cond ?s"
    by (simp add: loop_cond_def ab init_consts round_double_minus_1 dge_def)
  have b: "batch ?s = inner_step ?s" by (rule batch_one) (simp_all add: ab init_consts)
  have t: "a (inner_step ?s) = 0" "b (inner_step ?s) = 0" "ab (inner_step ?s) = NaN"
    by (simp_all add: inner_step_def Let_def init_state_def ratio_def round_double_1)
  have "outer_loop ?s = outer_loop (inner_step ?s)" using outer_loop_step [OF c] b by simp
  also have "\<dots> = Some (inner_step ?s)"
    by (rule outer_loop_stop) (rule loop_cond_NaN, rule t(3))
  finally have "outer_loop ?s = Some (inner_step ?s)" .
  then have "iterateRationalApproximation (- 1) (- 1) 0 1 1 1 (Fin 2) (Fin (1 / 1024)) 1
      = Some (Inr (0, 0))"
    by (simp add: iterateRationalApproximation_def in_int_range_def result_pair_def t)
  moreover have "\<not> within_tolerance (Fin 2) (Fin (1 / 1024)) (0, 0)"
    by (simp add: within_tolerance_def ratio_def)
  ultimately show ?thesis by simp
qed

text \<open>
  C2, as amended: a call that returns has left the \<^verbatim>\<open>while\<close> loop, so its pair fails the
  loop test \<^verbatim>\<open>|a/b - mantissa| >= precision\<close>. That is \<^verbatim>\<open>|a/b - mantissa| < precision\<close> as
  soon as no NaN is compared: when the difference and \<open>precision\<close> are not NaN, and so
  when the returned \<open>b\<close> is not 0 and neither \<open>mantissa\<close> nor \<open>precision\<close> is NaN.
\<close>

theorem returned_pair_fails_loop_test:
  assumes "iterateRationalApproximation x y lx ly ux uy m p k = Some (Inr (x', y'))"
  shows "\<not> dge (fabs (dsub (ratio x' y') m)) p
    \<and> (dsub (ratio x' y') m \<noteq> NaN \<and> p \<noteq> NaN \<longrightarrow> within_tolerance m p (x', y'))
    \<and> (y' \<noteq> 0 \<and> m \<noteq> NaN \<and> p \<noteq> NaN \<longrightarrow> within_tolerance m p (x', y'))"
proof -
  note r = iterate_result [OF assms]
  have 1: "within_tolerance m p (x', y')" if "dsub (ratio x' y') m \<noteq> NaN \<and> p \<noteq> NaN"
    unfolding within_tolerance_def fst_conv snd_conv
    using that r by (intro not_dge_dlt) (simp_all add: fabs_NaN_iff)
  have 2: "within_tolerance m p (x', y')" if "y' \<noteq> 0 \<and> m \<noteq> NaN \<and> p \<noteq> NaN"
  proof -
    have "isfinite (ratio x' y')" using ratio_finite [of x' y'] r that by simp
    then have "dsub (ratio x' y') m \<noteq> NaN" using that by (intro dsub_finite_not_NaN) simp_all
    then show ?thesis using 1 that by simp
  qed
  show ?thesis using r 1 2 by blast
qed

theorem returned_pair_fails_loop_test_witness:
  "iterateRationalApproximation 0 1 0 1 1 1 (Fin (1 / 2)) (Fin (1 / 1024)) 1 = Some (Inr (1, 2))
   \<and> within_tolerance (Fin (1 / 2)) (Fin (1 / 1024)) (1, 2)"
  using returned_pair_fails_loop_test [OF run_0_1_half] run_0_1_half by simp



text \<open>
  C4 fails when the denominator of the candidate is not positive. At \<open>a/b = 1/-1\<close> between
  the bounds \<open>0/1\<close> and \<open>1/1\<close> with \<open>mantissa = 0.5\<close> the invariant holds, in both
  readings; the ratio \<open>-1.0\<close> is below \<open>mantissa\<close>, so the step makes \<open>1/-1\<close> the lower
  bound, and the bounds no longer have positive denominators. No addition overflows.
\<close>

theorem negative_candidate_breaks_bracket_counterexample:
  "bracketed (init_state 1 (- 1) 0 1 1 1 (Fin (1 / 2)) (Fin (1 / 1024)) 1)
   \<and> bracketed_exact (init_state 1 (- 1) 0 1 1 1 (Fin (1 / 2)) (Fin (1 / 1024)) 1)
   \<and> is_double (Fin (1 / 2))
   \<and> ab (init_state 1 (- 1) 0 1 1 1 (Fin (1 / 2)) (Fin (1 / 1024)) 1) = Fin (- 1)
   \<and> \<not> deq (ab (init_state 1 (- 1) 0 1 1 1 (Fin (1 / 2)) (Fin (1 / 1024)) 1)) (Fin (1 / 2))
   \<and> lowerA (inner_step (init_state 1 (- 1) 0 1 1 1 (Fin (1 / 2)) (Fin (1 / 1024)) 1)) = 1
   \<and> sint (lowerB (inner_step (init_state 1 (- 1) 0 1 1 1 (Fin (1 / 2)) (Fin (1 / 1024)) 1))) = - 1
   \<and> \<not> bracketed (inner_step (init_state 1 (- 1) 0 1 1 1 (Fin (1 / 2)) (Fin (1 / 1024)) 1))
   \<and> \<not> bracketed_exact (inner_step (init_state 1 (- 1) 0 1 1 1 (Fin (1 / 2)) (Fin (1 / 1024)) 1))"
proof -
  let ?s = "init_state 1 (- 1) 0 1 1 1 (Fin (1 / 2)) (Fin (1 / 1024)) 1"
  have ab: "ab ?s = Fin (- 1)" by (simp add: init_state_def ratio_def round_double_minus_1)
  have 1: "bracketed ?s"
    by (simp add: bracketed_def init_state_def ratio_def round_double_0 round_double_1 dle_def dge_def)
  have 2: "bracketed_exact ?s"
    by (simp add: bracketed_exact_def init_state_def lower_val_def upper_val_def)
  have l: "lowerA (inner_step ?s) = 1" "sint (lowerB (inner_step ?s)) = - 1"
    by (simp_all add: inner_step_def Let_def ab, simp_all add: init_state_def)
  have 3: "\<not> bracketed (inner_step ?s)" "\<not> bracketed_exact (inner_step ?s)"
    by (simp_all add: bracketed_def bracketed_exact_def l)
  have 4: "is_double (Fin (1 / 2))" by (simp add: is_double_def round_double_half)
  show ?thesis using 1 2 3 4 l by (simp add: ab)
qed

text \<open>
  C4, as amended: an inner step on a candidate whose denominator \<open>b\<close> is positive
  preserves the bracketing invariant \<open>lowerA/lowerB \<le> mantissa \<le> upperA/upperB\<close> on
  positive denominators, in both readings (the bounds as doubles, the bounds as exact
  rationals). The step is one that the loop runs: the ratio of the candidate is in \<open>ab\<close>
  and differs from \<open>mantissa\<close>, a binary64 value.
\<close>

theorem inner_step_preserves_bracket:
  assumes "0 < sint (b s)" and "ab s = ratio (sint (a s)) (sint (b s))"
    and "\<not> deq (ab s) (mantissa s)" and "is_double (mantissa s)"
  shows "(bracketed s \<longrightarrow> bracketed (inner_step s))
    \<and> (bracketed_exact s \<longrightarrow> bracketed_exact (inner_step s))"
  using inner_step_bracketed [OF assms(1-3)] inner_step_bracketed_exact [OF assms] by blast

theorem inner_step_preserves_bracket_witness:
  "0 < sint (b (init_state 1 2 0 1 1 1 (Fin (3 / 4)) (Fin (1 / 1024)) 1))
   \<and> \<not> deq (ab (init_state 1 2 0 1 1 1 (Fin (3 / 4)) (Fin (1 / 1024)) 1)) (Fin (3 / 4))
   \<and> is_double (Fin (3 / 4))
   \<and> bracketed (init_state 1 2 0 1 1 1 (Fin (3 / 4)) (Fin (1 / 1024)) 1)
   \<and> bracketed_exact (init_state 1 2 0 1 1 1 (Fin (3 / 4)) (Fin (1 / 1024)) 1)
   \<and> bracketed (inner_step (init_state 1 2 0 1 1 1 (Fin (3 / 4)) (Fin (1 / 1024)) 1))
   \<and> bracketed_exact (inner_step (init_state 1 2 0 1 1 1 (Fin (3 / 4)) (Fin (1 / 1024)) 1))
   \<and> lowerA (inner_step (init_state 1 2 0 1 1 1 (Fin (3 / 4)) (Fin (1 / 1024)) 1)) = 1
   \<and> lowerB (inner_step (init_state 1 2 0 1 1 1 (Fin (3 / 4)) (Fin (1 / 1024)) 1)) = 2"
proof -
  let ?s = "init_state 1 2 0 1 1 1 (Fin (3 / 4)) (Fin (1 / 1024)) 1"
  have 1: "0 < sint (b ?s)" by (simp add: init_state_def)
  have 2: "ab ?s = ratio (sint (a ?s)) (sint (b ?s))" by (simp add: init_state_def)
  have 3: "\<not> deq (ab ?s) (mantissa ?s)" by (simp add: init_state_def ratio_1_2)
  have 4: "is_double (mantissa ?s)" by (simp add: init_state_def is_double_3_4)
  have 5: "bracketed ?s"
    by (simp add: bracketed_def init_state_def ratio_def round_double_0 round_double_1 dle_def dge_def)
  have 6: "bracketed_exact ?s"
    by (simp add: bracketed_exact_def init_state_def lower_val_def upper_val_def)
  have 7: "lowerA (inner_step ?s) = 1" "lowerB (inner_step ?s) = 2"
    by (simp_all add: inner_step_def Let_def init_state_def ratio_1_2)
  show ?thesis
    using inner_step_preserves_bracket [OF 1 2 3 4] 1 3 4 5 6 7 by (simp add: init_consts is_double_3_4)
qed

text \<open>
  C5 fails in both of its parts. From \<open>a/b = 1/2\<close> between \<open>0/1\<close> and \<open>1/1\<close> with
  \<open>mantissa = 0.25\<close>, the candidate \<open>1/2\<close> becomes the upper bound and so does the next
  candidate \<open>1/3\<close>: the sides do not alternate. From \<open>a/b = 5/1\<close> with the same bounds and
  \<open>mantissa = 0.5\<close>, all denominators positive and the bounds enclosing \<open>mantissa\<close>, the
  step makes \<open>5/1\<close> the upper bound: the interval \<open>[0, 1]\<close> becomes \<open>[0, 5]\<close>.
\<close>

theorem interval_and_alternation_counterexample:
  "bracketed_exact (init_state 1 2 0 1 1 1 (Fin (1 / 4)) (Fin (1 / 1024)) 1)
   \<and> 0 < sint (b (init_state 1 2 0 1 1 1 (Fin (1 / 4)) (Fin (1 / 1024)) 1))
   \<and> \<not> deq (ab (init_state 1 2 0 1 1 1 (Fin (1 / 4)) (Fin (1 / 1024)) 1)) (Fin (1 / 4))
   \<and> \<not> dlt (ab (init_state 1 2 0 1 1 1 (Fin (1 / 4)) (Fin (1 / 1024)) 1)) (Fin (1 / 4))
   \<and> \<not> deq (ab (inner_step (init_state 1 2 0 1 1 1 (Fin (1 / 4)) (Fin (1 / 1024)) 1))) (Fin (1 / 4))
   \<and> \<not> dlt (ab (inner_step (init_state 1 2 0 1 1 1 (Fin (1 / 4)) (Fin (1 / 1024)) 1))) (Fin (1 / 4))
   \<and> upper_val (inner_step (init_state 1 2 0 1 1 1 (Fin (1 / 4)) (Fin (1 / 1024)) 1)) = 1 / 2
   \<and> upper_val (inner_step (inner_step (init_state 1 2 0 1 1 1 (Fin (1 / 4)) (Fin (1 / 1024)) 1)))
       = 1 / 3
   \<and> lower_val (inner_step (inner_step (init_state 1 2 0 1 1 1 (Fin (1 / 4)) (Fin (1 / 1024)) 1)))
       = 0
   \<and> bracketed_exact (init_state 5 1 0 1 1 1 (Fin (1 / 2)) (Fin (1 / 1024)) 1)
   \<and> 0 < sint (b (init_state 5 1 0 1 1 1 (Fin (1 / 2)) (Fin (1 / 1024)) 1))
   \<and> \<not> deq (ab (init_state 5 1 0 1 1 1 (Fin (1 / 2)) (Fin (1 / 1024)) 1)) (Fin (1 / 2))
   \<and> lower_val (init_state 5 1 0 1 1 1 (Fin (1 / 2)) (Fin (1 / 1024)) 1) = 0
   \<and> upper_val (init_state 5 1 0 1 1 1 (Fin (1 / 2)) (Fin (1 / 1024)) 1) = 1
   \<and> lower_val (inner_step (init_state 5 1 0 1 1 1 (Fin (1 / 2)) (Fin (1 / 1024)) 1)) = 0
   \<and> upper_val (inner_step (init_state 5 1 0 1 1 1 (Fin (1 / 2)) (Fin (1 / 1024)) 1)) = 5"
proof -
  let ?s = "init_state 1 2 0 1 1 1 (Fin (1 / 4)) (Fin (1 / 1024)) 1"
  let ?t = "init_state 5 1 0 1 1 1 (Fin (1 / 2)) (Fin (1 / 1024)) 1"
  obtain v where v: "ratio 1 3 = Fin v" "5 / 16 \<le> v" using ratio_1_3_lower by blast
  have s0: "ab ?s = Fin (1 / 2)" "mantissa ?s = Fin (1 / 4)"
    by (simp_all add: init_state_def ratio_1_2)
  have s1: "a (inner_step ?s) = 1" "b (inner_step ?s) = 3" "lowerA (inner_step ?s) = 0"
    "lowerB (inner_step ?s) = 1" "upperA (inner_step ?s) = 1" "upperB (inner_step ?s) = 2"
    "ab (inner_step ?s) = Fin v" "mantissa (inner_step ?s) = Fin (1 / 4)"
    by (simp_all add: inner_step_def Let_def init_state_def ratio_1_2 v(1))
  have n1: "\<not> dlt (ab (inner_step ?s)) (mantissa (inner_step ?s))" using v(2) by (simp add: s1)
  have s2: "upperA (inner_step (inner_step ?s)) = 1" "upperB (inner_step (inner_step ?s)) = 3"
    "lowerA (inner_step (inner_step ?s)) = 0" "lowerB (inner_step (inner_step ?s)) = 1"
    using n1 by (simp_all add: inner_step_def [of "inner_step ?s"] Let_def s1)
  have t0: "ab ?t = Fin 5" by (simp add: init_state_def ratio_5_1)
  have t1: "upperA (inner_step ?t) = 5" "upperB (inner_step ?t) = 1"
    "lowerA (inner_step ?t) = 0" "lowerB (inner_step ?t) = 1"
    by (simp_all add: inner_step_def Let_def init_state_def ratio_5_1)
  have i: "bracketed_exact ?s" "0 < sint (b ?s)" "bracketed_exact ?t" "0 < sint (b ?t)"
    "lower_val ?t = 0" "upper_val ?t = 1"
    by (simp_all add: bracketed_exact_def init_state_def lower_val_def upper_val_def)
  show ?thesis
    using v(2) i by (simp add: s0 s1 t0 lower_val_def upper_val_def s2 t1)
qed

text \<open>
  C5, as amended: with positive denominators and the candidate strictly between the
  bounds as exact rationals, an inner step moves exactly one bound to the candidate and
  leaves the other, so the interval shrinks strictly; and when the two additions that
  the step executes do not overflow, the new candidate lies strictly between the new
  bounds, again on positive denominators. Which bound moves is decided by the comparison
  with \<open>mantissa\<close> alone: the sides need not alternate.
\<close>

theorem inner_step_shrinks_interval:
  assumes "0 < sint (b s)" and "0 < sint (lowerB s)" and "0 < sint (upperB s)"
    and "lower_val s < cand_val s" and "cand_val s < upper_val s"
  shows "(lower_val (inner_step s) = cand_val s \<and> upper_val (inner_step s) = upper_val s
          \<or> lower_val (inner_step s) = lower_val s \<and> upper_val (inner_step s) = cand_val s)
    \<and> lower_val s \<le> lower_val (inner_step s) \<and> upper_val (inner_step s) \<le> upper_val s
    \<and> upper_val (inner_step s) - lower_val (inner_step s) < upper_val s - lower_val s
    \<and> (in_int_range (sint (a s) + sint (if dlt (ab s) (mantissa s) then upperA s else lowerA s))
        \<and> in_int_range (sint (b s) + sint (if dlt (ab s) (mantissa s) then upperB s else lowerB s))
        \<longrightarrow> 0 < sint (b (inner_step s)) \<and> 0 < sint (lowerB (inner_step s))
            \<and> 0 < sint (upperB (inner_step s))
            \<and> lower_val (inner_step s) < cand_val (inner_step s)
            \<and> cand_val (inner_step s) < upper_val (inner_step s))"
  using assms(4,5) inner_step_cand_between [OF assms]
  by (simp add: inner_step_moves_one_bound)

theorem inner_step_shrinks_interval_witness:
  "0 < sint (b (init_state 1 2 0 1 1 1 (Fin (3 / 4)) (Fin (1 / 1024)) 1))
   \<and> lower_val (init_state 1 2 0 1 1 1 (Fin (3 / 4)) (Fin (1 / 1024)) 1) = 0
   \<and> cand_val (init_state 1 2 0 1 1 1 (Fin (3 / 4)) (Fin (1 / 1024)) 1) = 1 / 2
   \<and> upper_val (init_state 1 2 0 1 1 1 (Fin (3 / 4)) (Fin (1 / 1024)) 1) = 1
   \<and> lower_val (inner_step (init_state 1 2 0 1 1 1 (Fin (3 / 4)) (Fin (1 / 1024)) 1)) = 1 / 2
   \<and> upper_val (inner_step (init_state 1 2 0 1 1 1 (Fin (3 / 4)) (Fin (1 / 1024)) 1)) = 1
   \<and> 1 / 2 < cand_val (inner_step (init_state 1 2 0 1 1 1 (Fin (3 / 4)) (Fin (1 / 1024)) 1))
   \<and> cand_val (inner_step (init_state 1 2 0 1 1 1 (Fin (3 / 4)) (Fin (1 / 1024)) 1)) < 1
   \<and> \<not> in_int_range (sint (a (init_state (- 1) 1 (- 2147483648) 1 0 1 (Fin (- (1 / 2)))
          (Fin (1 / 1024)) 1))
        + sint (lowerA (init_state (- 1) 1 (- 2147483648) 1 0 1 (Fin (- (1 / 2)))
          (Fin (1 / 1024)) 1)))
   \<and> lower_val (init_state (- 1) 1 (- 2147483648) 1 0 1 (Fin (- (1 / 2))) (Fin (1 / 1024)) 1)
       = - 2147483648
   \<and> cand_val (init_state (- 1) 1 (- 2147483648) 1 0 1 (Fin (- (1 / 2))) (Fin (1 / 1024)) 1) = - 1
   \<and> upper_val (init_state (- 1) 1 (- 2147483648) 1 0 1 (Fin (- (1 / 2))) (Fin (1 / 1024)) 1) = 0
   \<and> lower_val (inner_step (init_state (- 1) 1 (- 2147483648) 1 0 1 (Fin (- (1 / 2)))
          (Fin (1 / 1024)) 1)) = - 1
   \<and> upper_val (inner_step (init_state (- 1) 1 (- 2147483648) 1 0 1 (Fin (- (1 / 2)))
          (Fin (1 / 1024)) 1)) = 0
   \<and> - 1 < cand_val (inner_step (init_state (- 1) 1 (- 2147483648) 1 0 1 (Fin (- (1 / 2)))
          (Fin (1 / 1024)) 1))
   \<and> cand_val (inner_step (init_state (- 1) 1 (- 2147483648) 1 0 1 (Fin (- (1 / 2)))
          (Fin (1 / 1024)) 1)) < 0"
proof -
  let ?s = "init_state 1 2 0 1 1 1 (Fin (3 / 4)) (Fin (1 / 1024)) 1"
  let ?t = "init_state (- 1) 1 (- 2147483648) 1 0 1 (Fin (- (1 / 2))) (Fin (1 / 1024)) 1"
  have d: "0 < sint (b ?s)" "0 < sint (lowerB ?s)" "0 < sint (upperB ?s)"
    by (simp_all add: init_state_def)
  have v: "lower_val ?s = 0" "cand_val ?s = 1 / 2" "upper_val ?s = 1"
    by (simp_all add: init_state_def lower_val_def cand_val_def upper_val_def)
  have lt: "dlt (ab ?s) (mantissa ?s)" by (simp add: init_state_def ratio_1_2)
  have o: "in_int_range (sint (a ?s) + sint (if dlt (ab ?s) (mantissa ?s) then upperA ?s else lowerA ?s))"
    "in_int_range (sint (b ?s) + sint (if dlt (ab ?s) (mantissa ?s) then upperB ?s else lowerB ?s))"
    unfolding if_P [OF lt] by (simp_all add: init_state_def in_int_range_def)
  have l: "lower_val ?s < cand_val ?s" "cand_val ?s < upper_val ?s" by (simp_all add: v)
  have u: "lower_val (inner_step ?s) = 1 / 2"
    by (simp add: inner_step_def Let_def init_state_def ratio_1_2 lower_val_def)
  have 1: "lower_val (inner_step ?s) = 1 / 2 \<and> upper_val (inner_step ?s) = 1
      \<and> 1 / 2 < cand_val (inner_step ?s) \<and> cand_val (inner_step ?s) < 1"
    using inner_step_shrinks_interval [OF d l] v o u by auto
  have d': "0 < sint (b ?t)" "0 < sint (lowerB ?t)" "0 < sint (upperB ?t)"
    by (simp_all add: init_state_def)
  have v': "lower_val ?t = - 2147483648" "cand_val ?t = - 1" "upper_val ?t = 0"
    by (simp_all add: init_state_def lower_val_def cand_val_def upper_val_def)
  have lt': "dlt (ab ?t) (mantissa ?t)"
    by (simp add: init_state_def ratio_def round_double_minus_1)
  have o': "in_int_range (sint (a ?t) + sint (if dlt (ab ?t) (mantissa ?t) then upperA ?t else lowerA ?t))"
    "in_int_range (sint (b ?t) + sint (if dlt (ab ?t) (mantissa ?t) then upperB ?t else lowerB ?t))"
    unfolding if_P [OF lt'] by (simp_all add: init_state_def in_int_range_def)
  have n': "\<not> in_int_range (sint (a ?t) + sint (lowerA ?t))"
    by (simp add: init_state_def in_int_range_def)
  have l': "lower_val ?t < cand_val ?t" "cand_val ?t < upper_val ?t" by (simp_all add: v')
  have u': "lower_val (inner_step ?t) = - 1"
    by (simp add: inner_step_def Let_def init_state_def ratio_def round_double_minus_1 lower_val_def)
  have 2: "lower_val (inner_step ?t) = - 1 \<and> upper_val (inner_step ?t) = 0
      \<and> - 1 < cand_val (inner_step ?t) \<and> cand_val (inner_step ?t) < 0"
    using inner_step_shrinks_interval [OF d' l'] v' o' u' by auto
  show ?thesis using 1 2 d(1) v v' n' by simp
qed

text \<open>
  C6: \<open>intSign\<close> on C \<^verbatim>\<open>int\<close> arguments returns \<open>zero\<close> for \<open>num = 0\<close>, 1 for a positive
  and \<open>- 1\<close> for a negative \<open>num\<close>, the least \<^verbatim>\<open>int\<close> included; an omitted \<open>zero\<close> is 0.
\<close>

theorem intSign_spec:
  assumes "in_int_range num" "in_int_range zero"
  shows "intSign num (Some zero) = Inr (if num = 0 then zero else if 0 < num then 1 else - 1)
    \<and> intSign num None = intSign num (Some 0)
    \<and> intSign (- 2147483648) (Some zero) = Inr (- 1)"
proof -
  have z: "in_int_range 0" and m: "in_int_range (- 2147483648)" by (simp_all add: in_int_range_def)
  have 1: "intSign num (Some zero) = Inr (if num = 0 then zero else if 0 < num then 1 else - 1)"
    using assms
    by (simp add: intSign_def intSign_c_eq sint_word_of_int_in_range word_of_int_eq_0_in_range)
  have 2: "intSign num None = intSign num (Some 0)"
    by (simp add: intSign_def)
  have "intSign (- 2147483648) (Some zero) =
      Inr (if (- 2147483648 :: int) = 0 then zero else if (0::int) < - 2147483648 then 1 else - 1)"
    using assms(2) m unfolding intSign_def option.case Let_def
    by (simp only: if_True simp_thms intSign_c_eq sint_word_of_int_in_range word_of_int_eq_0_in_range)
  then have 3: "intSign (- 2147483648) (Some zero) = Inr (- 1)" by simp
  show ?thesis using 1 2 3 by simp
qed

theorem intSign_spec_witness:
  "in_int_range 5 \<and> in_int_range (- 5) \<and> in_int_range 0 \<and> in_int_range (- 1)
   \<and> in_int_range (- 2147483648) \<and> in_int_range 2147483647
   \<and> intSign 5 None = Inr 1 \<and> intSign (- 5) None = Inr (- 1) \<and> intSign 0 None = Inr 0
   \<and> intSign 0 (Some (- 1)) = Inr (- 1) \<and> intSign (- 2147483648) None = Inr (- 1)
   \<and> intSign 2147483647 (Some 7) = Inr 1"
proof -
  have r: "in_int_range 5" "in_int_range (- 5)" "in_int_range 0" "in_int_range (- 1)"
    "in_int_range (- 2147483648)" "in_int_range 2147483647" "in_int_range 7"
    by (simp_all add: in_int_range_def)
  show ?thesis
    using intSign_spec [OF r(1) r(3)] intSign_spec [OF r(2) r(3)] intSign_spec [OF r(3) r(3)]
      intSign_spec [OF r(3) r(4)] intSign_spec [OF r(5) r(3)] intSign_spec [OF r(6) r(7)] r
    by simp
qed

text \<open>
  C7: with \<open>precision > 0\<close> and the ratio of the candidate equal to \<open>mantissa\<close> at entry, the
  call returns the candidate \<open>(a, b)\<close> as it was passed; the \<^verbatim>\<open>while\<close> loop returns its
  entry state, so no mediant step has run.
\<close>

theorem exact_hit_returns_input:
  assumes "list_all in_int_range [x, y, lx, ly, ux, uy, k]"
    and "dlt (Fin 0) p" and "deq (ratio x y) m"
  shows "iterateRationalApproximation x y lx ly ux uy m p k = Some (Inr (x, y))
    \<and> outer_loop (entry_state x y lx ly ux uy m p k)
        = Some (entry_state x y lx ly ux uy m p k)"
proof -
  let ?s = "entry_state x y lx ly ux uy m p k"
  have r: "in_int_range x" "in_int_range y" using assms(1) by simp_all
  have "\<not> loop_cond ?s"
    unfolding loop_cond_init [OF r] using assms(3,2) by (rule deq_diff_not_ge)
  then have o: "outer_loop ?s = Some ?s" by (subst outer_loop.simps) simp
  show ?thesis
    using o assms(1) result_pair_init [OF r] by (simp add: iterateRationalApproximation_def)
qed

theorem exact_hit_returns_input_witness:
  "list_all in_int_range [1, 2, 0, 1, 1, 1, 1] \<and> dlt (Fin 0) (Fin (1 / 1024))
   \<and> deq (ratio 1 2) (Fin (1 / 2))
   \<and> iterateRationalApproximation 1 2 0 1 1 1 (Fin (1 / 2)) (Fin (1 / 1024)) 1 = Some (Inr (1, 2))"
proof -
  have r: "list_all in_int_range [1, 2, 0, 1, 1, 1, 1]" by (simp add: in_int_range_def)
  have p: "dlt (Fin 0) (Fin (1 / 1024))" by simp
  have e: "deq (ratio 1 2) (Fin (1 / 2))" by (simp add: ratio_1_2)
  show ?thesis using exact_hit_returns_input [OF r p e] r p e by simp
qed

text \<open>
  C8: with \<open>microIterations \<le> 0\<close> the \<^verbatim>\<open>for\<close> loop runs no iteration, so an outer pass
  leaves every variable as it was; when the loop test holds at entry it holds for ever,
  and the call never returns.
\<close>

theorem nonpositive_microIterations_diverges:
  assumes "list_all in_int_range [x, y, lx, ly, ux, uy, k]"
    and "k \<le> 0" and "dge (fabs (dsub (ratio x y) m)) p"
  shows "batch (entry_state x y lx ly ux uy m p k)
        = entry_state x y lx ly ux uy m p k
    \<and> iterateRationalApproximation x y lx ly ux uy m p k = None"
proof -
  let ?s = "entry_state x y lx ly ux uy m p k"
  have r: "in_int_range x" "in_int_range y" "in_int_range k" using assms(1) by simp_all
  have k: "sint (microIterations ?s) \<le> 0"
    using assms(2) by (simp add: init_consts sint_word_of_int_in_range [OF r(3)])
  have c: "loop_cond ?s" unfolding loop_cond_init [OF r(1,2)] by (rule assms(3))
  have "outer_loop ?s = None"
    by (rule outer_loop_None) (simp add: batches_nonpositive [OF k] c)
  then show ?thesis
    using assms(1) batch_nonpositive [OF k] by (simp add: iterateRationalApproximation_def)
qed

theorem nonpositive_microIterations_diverges_witness:
  "list_all in_int_range [0, 1, 0, 1, 1, 1, 0] \<and> (0::int) \<le> 0
   \<and> dge (fabs (dsub (ratio 0 1) (Fin (1 / 2)))) (Fin (1 / 1024))
   \<and> iterateRationalApproximation 0 1 0 1 1 1 (Fin (1 / 2)) (Fin (1 / 1024)) 0 = None"
proof -
  have r: "list_all in_int_range [0, 1, 0, 1, 1, 1, 0]" by (simp add: in_int_range_def)
  have "round_double (- (1 / 2)) = Fin (- (1 / 2))"
    using round_double_dyadic [of "- (1 / 2)" "- 1" "- 1"] by simp
  then have c: "dge (fabs (dsub (ratio 0 1) (Fin (1 / 2)))) (Fin (1 / 1024))"
    by (simp add: ratio_def round_double_def dge_def)
  show ?thesis using nonpositive_microIterations_diverges [OF r _ c] r c by simp
qed

text \<open>
  C9: a zero among \<open>b\<close>, \<open>lowerB\<close>, \<open>upperB\<close> is not rejected: the only error of the call is
  the OverflowError of an argument that is no C \<^verbatim>\<open>int\<close>. With \<open>b = 0\<close> the ratio at entry is
  an infinity, or NaN for \<open>a = 0\<close>. The NaN makes the loop test false, so \<open>(0, 0)\<close> is
  returned at once; an infinity makes it true whenever \<open>mantissa\<close> is finite and
  \<open>precision\<close> is a number, so the search goes on from the infinite ratio.
\<close>

theorem zero_denominator_not_rejected:
  assumes "list_all in_int_range [x, y, lx, ly, ux, uy, k]"
    and "y = 0 \<or> ly = 0 \<or> uy = 0"
  shows "iterateRationalApproximation x y lx ly ux uy m p k \<noteq> Some (Inl e)
    \<and> (y = 0 \<longrightarrow>
         ab (entry_state x y lx ly ux uy m p k)
           = (if x = 0 then NaN else if 0 < x then PInf else NInf))
    \<and> (y = 0 \<and> x = 0 \<longrightarrow> iterateRationalApproximation x y lx ly ux uy m p k = Some (Inr (0, 0)))
    \<and> (y = 0 \<and> x \<noteq> 0 \<and> isfinite m \<and> p \<noteq> NaN \<longrightarrow>
         loop_cond (entry_state x y lx ly ux uy m p k))"
proof -
  let ?s = "entry_state x y lx ly ux uy m p k"
  have r: "in_int_range x" "in_int_range y" using assms(1) by simp_all
  have 1: "iterateRationalApproximation x y lx ly ux uy m p k \<noteq> Some (Inl e)"
    using assms(1) by (auto simp add: iterateRationalApproximation_def)
  have "ab ?s = ratio x y" by (rule ab_init [OF r])
  then have 2: "y = 0 \<longrightarrow> ab ?s = (if x = 0 then NaN else if 0 < x then PInf else NInf)"
    using ratio_zero_divisor [of x] by auto
  have 3: "iterateRationalApproximation x y lx ly ux uy m p k = Some (Inr (0, 0))"
    if "y = 0 \<and> x = 0"
  proof -
    have "ab ?s = NaN" using that 2 by simp
    then have "\<not> loop_cond ?s" by (rule loop_cond_NaN)
    then have "outer_loop ?s = Some ?s" by (subst outer_loop.simps) simp
    then show ?thesis
      using assms(1) result_pair_init [OF r] that by (simp add: iterateRationalApproximation_def)
  qed
  have 4: "loop_cond ?s" if "y = 0 \<and> x \<noteq> 0 \<and> isfinite m \<and> p \<noteq> NaN"
  proof -
    have "isfinite m" using that by simp
    then obtain v where v: "m = Fin v" by (cases m) simp_all
    have "ab ?s = PInf \<or> ab ?s = NInf" using that 2 by auto
    then show ?thesis using that v by (cases p) (auto simp add: loop_cond_def init_consts dge_def)
  qed
  show ?thesis using 1 2 3 4 by blast
qed

theorem zero_denominator_not_rejected_witness:
  "list_all in_int_range [0, 0, 0, 1, 1, 1, 1] \<and> list_all in_int_range [1, 0, 0, 1, 1, 1, 1]
   \<and> iterateRationalApproximation 0 0 0 1 1 1 (Fin (1 / 2)) (Fin (1 / 1024)) 1 = Some (Inr (0, 0))
   \<and> \<not> within_tolerance (Fin (1 / 2)) (Fin (1 / 1024)) (0, 0)
   \<and> ab (init_state 1 0 0 1 1 1 (Fin (1 / 2)) (Fin (1 / 1024)) 1) = PInf
   \<and> loop_cond (init_state 1 0 0 1 1 1 (Fin (1 / 2)) (Fin (1 / 1024)) 1)"
proof -
  have r: "list_all in_int_range [0, 0, 0, 1, 1, 1, 1]" "list_all in_int_range [1, 0, 0, 1, 1, 1, 1]"
    by (simp_all add: in_int_range_def)
  have w: "\<not> within_tolerance (Fin (1 / 2)) (Fin (1 / 1024)) (0, 0)"
    by (simp add: within_tolerance_def ratio_def)
  show ?thesis
    using zero_denominator_not_rejected [OF r(1), of "Fin (1 / 2)" "Fin (1 / 1024)"]
      zero_denominator_not_rejected [OF r(2), of "Fin (1 / 2)" "Fin (1 / 1024)"] r w
    by simp
qed

text \<open>
  C10: when the candidate is within the tolerance at entry, \<^verbatim>\<open>|(double) a/b - mantissa| <
  precision\<close>, the call returns \<open>(a, b)\<close> as passed: the \<^verbatim>\<open>while\<close> loop returns its entry
  state, bounds included, so no mediant step has run. The model is a function of its
  arguments: there is no other effect.
\<close>

theorem within_tolerance_returns_input:
  assumes "list_all in_int_range [x, y, lx, ly, ux, uy, k]"
    and "within_tolerance m p (x, y)"
  shows "iterateRationalApproximation x y lx ly ux uy m p k = Some (Inr (x, y))
    \<and> outer_loop (entry_state x y lx ly ux uy m p k)
        = Some (entry_state x y lx ly ux uy m p k)"
proof -
  let ?s = "entry_state x y lx ly ux uy m p k"
  have r: "in_int_range x" "in_int_range y" using assms(1) by simp_all
  have "dlt (fabs (dsub (ratio x y) m)) p" using assms(2) by (simp add: within_tolerance_def)
  then have "\<not> loop_cond ?s"
    unfolding loop_cond_init [OF r] by (rule dlt_not_dge)
  then have o: "outer_loop ?s = Some ?s" by (subst outer_loop.simps) simp
  show ?thesis
    using o assms(1) result_pair_init [OF r] by (simp add: iterateRationalApproximation_def)
qed

theorem within_tolerance_returns_input_witness:
  "list_all in_int_range [3, 4, 1, 2, 1, 1, 5] \<and> within_tolerance (Fin (1 / 2)) (Fin (1 / 2)) (3, 4)
   \<and> \<not> deq (ratio 3 4) (Fin (1 / 2))
   \<and> iterateRationalApproximation 3 4 1 2 1 1 (Fin (1 / 2)) (Fin (1 / 2)) 5 = Some (Inr (3, 4))"
proof -
  have r: "list_all in_int_range [3, 4, 1, 2, 1, 1, 5]" by (simp add: in_int_range_def)
  have "(3 / 4 - 1 / 2 :: rat) = 1 / 4" by simp
  then have w: "within_tolerance (Fin (1 / 2)) (Fin (1 / 2)) (3, 4)"
    by (simp add: within_tolerance_def ratio_3_4 round_double_quarter)
  have n: "\<not> deq (ratio 3 4) (Fin (1 / 2))" by (simp add: ratio_3_4)
  show ?thesis using within_tolerance_returns_input [OF r w] r w n by simp
qed

end
